theory Spec2Isabelle
  imports Main "HOL-Library.Sublist"
begin

section \<open>Regular expressions of the host language\<close>

text \<open>
  The linkifier hands each matcher's pattern to \<^verbatim>\<open>text.match(regex)\<close>. The patterns are
  modelled by their syntax tree (the fragment that \<^verbatim>\<open>strictUrlRegex\<close> is written in:
  characters, character classes, anchors, concatenation, alternation, capturing groups and
  greedy quantifiers, without flags), and matching by the backtracking semantics of the
  language standard: every matcher yields its successes in priority order, the first one wins.
  The subject is the remaining suffix of the input; a capture is the text of the group.
\<close>

datatype citem = CChar char | CRange char char | CDigit | CWord

definition in_range :: "char \<Rightarrow> char \<Rightarrow> char \<Rightarrow> bool" where
  "in_range lo hi c = ((of_char lo :: nat) \<le> of_char c \<and> (of_char c :: nat) \<le> of_char hi)"

fun in_item :: "citem \<Rightarrow> char \<Rightarrow> bool" where
  "in_item (CChar d) c = (c = d)"
| "in_item (CRange lo hi) c = in_range lo hi c"
| "in_item CDigit c = in_range (CHR ''0'') (CHR ''9'') c"
| "in_item CWord c = (in_range (CHR ''a'') (CHR ''z'') c \<or> in_range (CHR ''A'') (CHR ''Z'') c
      \<or> in_range (CHR ''0'') (CHR ''9'') c \<or> c = CHR ''_'')"

datatype regex = Chr char | Cls bool "citem list" | Eps | Bol | Eol
  | Seq regex regex | Alt regex regex | Grp nat regex | Rep nat "nat option" regex

type_synonym captures = "nat \<Rightarrow> string option"

fun groups :: "regex \<Rightarrow> nat list" where
  "groups (Seq a b) = groups a @ groups b"
| "groups (Alt a b) = groups a @ groups b"
| "groups (Grp n r) = n # groups r"
| "groups (Rep mn mx r) = groups r"
| "groups _ = []"

fun rsize :: "regex \<Rightarrow> nat" where
  "rsize (Seq a b) = Suc (rsize a + rsize b)"
| "rsize (Alt a b) = Suc (rsize a + rsize b)"
| "rsize (Grp n r) = Suc (rsize r)"
| "rsize (Rep mn mx r) = Suc (rsize r)"
| "rsize _ = 0"

fun rep_min :: "regex \<Rightarrow> nat" where
  "rep_min (Rep mn mx r) = mn"
| "rep_min _ = 0"

definition clear :: "nat list \<Rightarrow> captures \<Rightarrow> captures" where
  "clear ns k = (\<lambda>i. if i \<in> set ns then None else k i)"

text \<open>
  \<open>rmatch r inp t k\<close>: the ways \<open>r\<close> matches a prefix of the suffix \<open>t\<close> of the input
  \<open>inp\<close> under the captures \<open>k\<close>, each with the suffix left over and the captures then.
  A quantifier \<open>Rep mn mx r\<close> is \<^verbatim>\<open>r{mn,mx}\<close> (\<open>mx = None\<close>: unbounded); it clears the
  captures of its body before each iteration and, once the minimum is reached, rejects an
  iteration that consumed nothing. An iteration never gives text back, which the test
  \<open>length (fst x) \<le> length t\<close> records for the termination proof.
\<close>

function rmatch :: "regex \<Rightarrow> string \<Rightarrow> string \<Rightarrow> captures \<Rightarrow> (string \<times> captures) list" where
  "rmatch (Chr c) inp t k = (case t of [] \<Rightarrow> [] | d # t' \<Rightarrow> if d = c then [(t', k)] else [])"
| "rmatch (Cls neg items) inp t k =
     (case t of [] \<Rightarrow> []
      | d # t' \<Rightarrow> if (\<exists>i \<in> set items. in_item i d) \<noteq> neg then [(t', k)] else [])"
| "rmatch Eps inp t k = [(t, k)]"
| "rmatch Bol inp t k = (if length t = length inp then [(t, k)] else [])"
| "rmatch Eol inp t k = (if t = [] then [(t, k)] else [])"
| "rmatch (Seq a b) inp t k =
     concat (map (\<lambda>x. rmatch b inp (fst x) (snd x)) (rmatch a inp t k))"
| "rmatch (Alt a b) inp t k = rmatch a inp t k @ rmatch b inp t k"
| "rmatch (Grp n r) inp t k =
     map (\<lambda>x. (fst x, (snd x)(n := Some (take (length t - length (fst x)) t))))
         (rmatch r inp t k)"
| "rmatch (Rep mn mx r) inp t k =
     (if mx = Some 0 then [(t, k)]
      else let again = concat (map (\<lambda>x.
                 if mn = 0 \<and> length (fst x) = length t then []
                 else if length (fst x) \<le> length t
                      then rmatch (Rep (mn - 1) (map_option (\<lambda>j. j - 1) mx) r) inp (fst x) (snd x)
                      else [])
               (rmatch r inp t (clear (groups r) k)))
           in if mn = 0 then again @ [(t, k)] else again)"
  by pat_completeness auto
termination
  by (relation "measures [\<lambda>(r, inp, t, k). rsize r, \<lambda>(r, inp, t, k). length t,
                          \<lambda>(r, inp, t, k). rep_min r]") auto

declare rmatch.simps [simp del]

text \<open>The search for the leftmost match: start positions are tried from the left.\<close>

fun search :: "regex \<Rightarrow> string \<Rightarrow> string \<Rightarrow> (string \<times> string \<times> captures) option" where
  "search r inp [] =
     (case rmatch r inp [] (\<lambda>_. None) of x # _ \<Rightarrow> Some ([], fst x, snd x) | [] \<Rightarrow> None)"
| "search r inp (c # t) =
     (case rmatch r inp (c # t) (\<lambda>_. None) of
        x # _ \<Rightarrow> Some (c # t, fst x, snd x)
      | [] \<Rightarrow> search r inp t)"

definition ngroups :: "regex \<Rightarrow> nat" where
  "ngroups r = fold max (groups r) 0"

text \<open>
  \<^verbatim>\<open>text.match(regex)\<close>: \<open>None\<close> is \<^verbatim>\<open>null\<close>; otherwise the array of the whole match
  and of the groups \<open>1 .. ngroups\<close>, \<open>None\<close> standing for \<^verbatim>\<open>undefined\<close> (a group that did
  not take part).
\<close>

definition str_match :: "string \<Rightarrow> regex \<Rightarrow> string option list option" where
  "str_match text r =
     (case search r text text of
        None \<Rightarrow> None
      | Some (t, t', k) \<Rightarrow>
          Some (Some (take (length t - length t') t) # map k [1..<Suc (ngroups r)]))"

text \<open>\<^verbatim>\<open>array[i]\<close>, \<^verbatim>\<open>undefined\<close> beyond the end.\<close>

definition element :: "'a option list \<Rightarrow> nat \<Rightarrow> 'a option" where
  "element xs i = (if i < length xs then xs ! i else None)"

text \<open>\<^verbatim>\<open>text.indexOf(u)\<close>: the first position where \<open>u\<close> occurs, \<open>-1\<close> when there is none.\<close>

fun indexOf :: "string \<Rightarrow> string \<Rightarrow> int" where
  "indexOf [] u = (if u = [] then 0 else - 1)"
| "indexOf (c # t) u =
     (if take (length u) (c # t) = u then 0
      else let i = indexOf t u in if i < 0 then - 1 else i + 1)"

text \<open>\<^verbatim>\<open>text.substr(start)\<close>; a negative start counts from the end.\<close>

definition substr :: "string \<Rightarrow> int \<Rightarrow> string" where
  "substr text start =
     (if start < 0 then drop (nat (max 0 (int (length text) + start))) text
      else drop (nat start) text)"

text \<open>The conversion of a possibly undefined string to a string.\<close>

definition toString :: "string option \<Rightarrow> string" where
  "toString u = (case u of None \<Rightarrow> ''undefined'' | Some s \<Rightarrow> s)"

subsection \<open>The pattern of the built-in matcher\<close>

definition plus :: "regex \<Rightarrow> regex" where "plus r = Rep 1 None r"
definition star :: "regex \<Rightarrow> regex" where "star r = Rep 0 None r"
definition opt :: "regex \<Rightarrow> regex" where "opt r = Rep 0 (Some 1) r"

fun lit :: "string \<Rightarrow> regex" where
  "lit [] = Eps"
| "lit [c] = Chr c"
| "lit (c # cs) = Seq (Chr c) (lit cs)"

text \<open>
  The clauses of \<^verbatim>\<open>Linkifier.ts\<close>, lines 12 to 29, with the capturing groups numbered by
  their opening parenthesis in the assembled pattern: 1 the link, 2 the protocol, 3 the
  host, 4 domain and top-level domain, 5 the domain body, 6 the top-level domain, 7 the IP
  address, 8 its repeated part, 9 localhost, 10 the port, 11 the path, 12 the query string,
  13 the hash fragment, 14 the end.
\<close>

definition protocolClause :: regex where
  "protocolClause = Grp 2 (Seq (lit ''http'') (Seq (opt (Chr CHR ''s'')) (lit ''://'')))"

definition domainCharacterSet :: regex where
  "domainCharacterSet =
     plus (Cls False [CDigit, CRange CHR ''a'' CHR ''z'', CChar CHR ''.'', CChar CHR ''-''])"

definition negatedDomainCharacterSet :: regex where
  "negatedDomainCharacterSet =
     plus (Cls True [CDigit, CRange CHR ''a'' CHR ''z'', CChar CHR ''.'', CChar CHR ''-''])"

definition domainBodyClause :: regex where
  "domainBodyClause = Grp 5 domainCharacterSet"

definition tldClause :: regex where
  "tldClause = Grp 6 (Rep 2 (Some 6) (Cls False [CRange CHR ''a'' CHR ''z'', CChar CHR ''.'']))"

definition ipClause :: regex where
  "ipClause =
     Grp 7 (Seq (Rep 3 (Some 3) (Grp 8 (Seq (Rep 1 (Some 3) (Cls False [CDigit])) (Chr CHR ''.''))))
                (Rep 1 (Some 3) (Cls False [CDigit])))"

definition localHostClause :: regex where
  "localHostClause = Grp 9 (lit ''localhost'')"

definition portClause :: regex where
  "portClause = Grp 10 (Seq (Chr CHR '':'') (Rep 1 (Some 5) (Cls False [CDigit])))"

definition hostClause :: regex where
  "hostClause =
     Seq (Grp 3 (Alt (Grp 4 (Seq domainBodyClause (Seq (Chr CHR ''.'') tldClause)))
                     (Alt ipClause localHostClause)))
         (opt portClause)"

definition pathClause :: regex where
  "pathClause =
     star (Grp 11 (Seq (Chr CHR ''/'')
       (star (Cls False [CChar CHR ''/'', CWord, CChar CHR ''.'', CChar CHR ''-'',
                         CChar CHR ''%'', CChar CHR ''~'']))))"

definition queryStringHashFragmentCharacterSet :: regex where
  "queryStringHashFragmentCharacterSet =
     star (Cls False ([CRange CHR ''0'' CHR ''9'', CWord] @ map CChar ''[]()/?!#@$%&''
                      @ [CChar (CHR 0x27)] @ map CChar ''*+,:;~=.-''))"

definition queryStringClause :: regex where
  "queryStringClause = opt (Grp 12 (Seq (Chr CHR ''?'') queryStringHashFragmentCharacterSet))"

definition hashFragmentClause :: regex where
  "hashFragmentClause = opt (Grp 13 (Seq (Chr CHR ''#'') queryStringHashFragmentCharacterSet))"

definition negatedPathCharacterSet :: regex where
  "negatedPathCharacterSet =
     plus (Cls True [CChar CHR ''/'', CWord, CChar CHR ''.'', CChar CHR ''-'', CChar CHR ''%''])"

definition bodyClause :: regex where
  "bodyClause = Seq hostClause (Seq pathClause (Seq queryStringClause hashFragmentClause))"

definition strictUrlRegex :: regex where
  "strictUrlRegex =
     Seq (Alt Bol negatedDomainCharacterSet)
         (Seq (Grp 1 (Seq protocolClause bodyClause)) (Grp 14 (Alt Eol negatedPathCharacterSet)))"

definition HYPERTEXT_LINK_MATCHER_ID :: nat where
  "HYPERTEXT_LINK_MATCHER_ID = 0"

section \<open>The linkifier\<close>

text \<open>
  Handlers and hover callbacks are functions of the host; only their presence matters
  here, so a callback is the name of one. A validation callback receives the row's text
  and a completion function; it either calls the completion function at once with its
  verdict or keeps it and calls it later.
\<close>

type_synonym callback = nat

datatype validation = Now bool | Later

record linkMatcher =
  matcherId :: nat
  regex :: regex
  handler :: "callback option"
  matchIndex :: "nat option"
  validationCallback :: "(string \<Rightarrow> validation) option"
  hoverStartCallback :: "callback option"
  hoverEndCallback :: "callback option"
  priority :: int

record linkMatcherOptions =
  o_matchIndex :: "nat option"
  o_validationCallback :: "(string \<Rightarrow> validation) option"
  o_hoverStartCallback :: "callback option"
  o_hoverEndCallback :: "callback option"
  o_priority :: "int option"

text \<open>
  A zone of the mouse zone manager: the columns \<open>x1\<close> to \<open>x2\<close> (exclusive) of row \<open>y\<close>,
  all counted from 1; its three callbacks are closures over the link text and the matcher,
  kept here as the text and the matcher's id.
\<close>

record mouseZone =
  x1 :: int
  x2 :: int
  y :: nat
  zoneUri :: string
  zoneMatcher :: nat

text \<open>
  The completion function handed to a validation callback (lines 223 to 231) is a closure
  over the column \<open>offset + index\<close>, the row, the link text and the matcher.
\<close>

record completion =
  c_x :: int
  c_rowIndex :: nat
  c_uri :: "string option"
  c_matcher :: linkMatcher

text \<open>
  The terminal's buffer: the scroll position and the rows, each as the string that
  \<^verbatim>\<open>translateBufferLineToString\<close> returns for it.
\<close>

record buffer =
  ydisp :: nat
  lines :: "string list"

text \<open>
  The fields of the class, followed by what the host holds for it: the armed timers (handle
  and the bound arguments of \<^verbatim>\<open>_linkifyRows\<close>), the next timer handle (handles are positive
  and never reused), and the completion functions that validation callbacks have kept.
  \<open>mouseZoneManager = None\<close> before \<^verbatim>\<open>attachToDom\<close>; afterwards it holds the manager's zones.
\<close>

record linkifier =
  linkMatchers :: "linkMatcher list"
  mouseZoneManager :: "mouseZone list option"
  rowsTimeoutId :: "nat option"
  nextLinkMatcherId :: nat
  terminal :: buffer
  timeouts :: "(nat \<times> nat \<times> nat) list"
  nextTimeout :: nat
  validations :: "completion list"

datatype error = Error string | TypeError

text \<open>A call returns a value or throws; either way it leaves a state behind.\<close>

datatype 'a outcome = Returned 'a linkifier | Thrown error linkifier

fun state_of :: "'a outcome \<Rightarrow> linkifier" where
  "state_of (Returned v st) = st"
| "state_of (Thrown e st) = st"

subsection \<open>The registry of matchers\<close>

definition splice :: "'a list \<Rightarrow> nat \<Rightarrow> 'a \<Rightarrow> 'a list" where
  "splice xs i v = take i xs @ [v] @ drop i xs"

text \<open>
  The loop of \<^verbatim>\<open>_addLinkMatcherToList\<close> (lines 156 to 163): the argument \<open>Suc i\<close> is the loop at
  index \<open>i\<close>, the argument \<open>0\<close> is the loop left with no index remaining.
\<close>

fun addLinkMatcherToList_loop :: "linkMatcher \<Rightarrow> linkMatcher list \<Rightarrow> nat \<Rightarrow> linkMatcher list" where
  "addLinkMatcherToList_loop matcher ms 0 = splice ms 0 matcher"
| "addLinkMatcherToList_loop matcher ms (Suc i) =
     (if priority matcher \<le> priority (ms ! i) then splice ms (i + 1) matcher
      else addLinkMatcherToList_loop matcher ms i)"

definition addLinkMatcherToList :: "linkMatcher \<Rightarrow> linkifier \<Rightarrow> linkifier" where
  "addLinkMatcherToList matcher st =
     (if length (linkMatchers st) = 0 then st\<lparr>linkMatchers := linkMatchers st @ [matcher]\<rparr>
      else st\<lparr>linkMatchers :=
                addLinkMatcherToList_loop matcher (linkMatchers st) (length (linkMatchers st))\<rparr>)"

definition registerLinkMatcher ::
  "regex \<Rightarrow> callback option \<Rightarrow> linkMatcherOptions \<Rightarrow> linkifier \<Rightarrow> nat outcome" where
  "registerLinkMatcher rx h options st =
     (if nextLinkMatcherId st \<noteq> HYPERTEXT_LINK_MATCHER_ID \<and> h = None
      then Thrown (Error ''handler must be defined'') st
      else
        let matcher = \<lparr>matcherId = nextLinkMatcherId st, regex = rx, handler = h,
                       matchIndex = o_matchIndex options,
                       validationCallback = o_validationCallback options,
                       hoverStartCallback = o_hoverStartCallback options,
                       hoverEndCallback = o_hoverEndCallback options,
                       priority = (case o_priority options of None \<Rightarrow> 0 | Some p \<Rightarrow> p)\<rparr>
        in Returned (matcherId matcher)
             (addLinkMatcherToList matcher (st\<lparr>nextLinkMatcherId := nextLinkMatcherId st + 1\<rparr>)))"

function deregisterLinkMatcher_loop :: "nat \<Rightarrow> nat \<Rightarrow> linkMatcher list \<Rightarrow> bool \<times> linkMatcher list" where
  "deregisterLinkMatcher_loop mid i ms =
     (if i < length ms
      then if matcherId (ms ! i) = mid then (True, take i ms @ drop (Suc i) ms)
           else deregisterLinkMatcher_loop mid (Suc i) ms
      else (False, ms))"
  by pat_completeness auto
termination
  by (relation "measure (\<lambda>(mid, i, ms). length ms - i)") auto

declare deregisterLinkMatcher_loop.simps [simp del]

definition deregisterLinkMatcher :: "nat \<Rightarrow> linkifier \<Rightarrow> bool \<times> linkifier" where
  "deregisterLinkMatcher mid st =
     (let r = deregisterLinkMatcher_loop mid 1 (linkMatchers st)
      in (fst r, st\<lparr>linkMatchers := snd r\<rparr>))"

text \<open>
  Lines 105 and 113 index the list with \<^verbatim>\<open>HYPERTEXT_LINK_MATCHER_ID\<close>; on an empty list the
  element is \<^verbatim>\<open>undefined\<close> and the assignment throws.
\<close>

definition setHypertextLinkHandler :: "callback option \<Rightarrow> linkifier \<Rightarrow> unit outcome" where
  "setHypertextLinkHandler h st =
     (if HYPERTEXT_LINK_MATCHER_ID < length (linkMatchers st)
      then Returned () (st\<lparr>linkMatchers := (linkMatchers st)[HYPERTEXT_LINK_MATCHER_ID :=
             (linkMatchers st ! HYPERTEXT_LINK_MATCHER_ID)\<lparr>handler := h\<rparr>]\<rparr>)
      else Thrown TypeError st)"

definition setHypertextValidationCallback ::
  "(string \<Rightarrow> validation) option \<Rightarrow> linkifier \<Rightarrow> unit outcome" where
  "setHypertextValidationCallback cb st =
     (if HYPERTEXT_LINK_MATCHER_ID < length (linkMatchers st)
      then Returned () (st\<lparr>linkMatchers := (linkMatchers st)[HYPERTEXT_LINK_MATCHER_ID :=
             (linkMatchers st ! HYPERTEXT_LINK_MATCHER_ID)\<lparr>validationCallback := cb\<rparr>]\<rparr>)
      else Thrown TypeError st)"

text \<open>The constructor (lines 47 to 57): the field initialisers, then the built-in matcher.\<close>

definition new_Linkifier :: "buffer \<Rightarrow> linkifier" where
  "new_Linkifier term =
     state_of (registerLinkMatcher strictUrlRegex None
       \<lparr>o_matchIndex = Some 1, o_validationCallback = None, o_hoverStartCallback = None,
        o_hoverEndCallback = None, o_priority = None\<rparr>
       \<lparr>linkMatchers = [], mouseZoneManager = None, rowsTimeoutId = None,
        nextLinkMatcherId = HYPERTEXT_LINK_MATCHER_ID, terminal = term,
        timeouts = [], nextTimeout = 1, validations = []\<rparr>)"

subsection \<open>Scan requests\<close>

definition attachToDom :: "mouseZone list \<Rightarrow> linkifier \<Rightarrow> linkifier" where
  "attachToDom zones st = st\<lparr>mouseZoneManager := Some zones\<rparr>"

text \<open>The test \<^verbatim>\<open>if (this._rowsTimeoutId)\<close>: \<^verbatim>\<open>null\<close>, \<^verbatim>\<open>undefined\<close> and \<open>0\<close> are false.\<close>

fun truthy :: "nat option \<Rightarrow> bool" where
  "truthy None = False"
| "truthy (Some n) = (n \<noteq> 0)"

definition clearTimeout :: "nat option \<Rightarrow> linkifier \<Rightarrow> linkifier" where
  "clearTimeout h st = st\<lparr>timeouts := filter (\<lambda>t. Some (fst t) \<noteq> h) (timeouts st)\<rparr>"

text \<open>
  \<^verbatim>\<open>setTimeout(this._linkifyRows.bind(this, start, end), TIME_BEFORE_LINKIFY)\<close>: the host
  arms a timer for the call and returns its handle.
\<close>

definition setTimeout :: "nat \<Rightarrow> nat \<Rightarrow> linkifier \<Rightarrow> nat \<times> linkifier" where
  "setTimeout start end st =
     (nextTimeout st,
      st\<lparr>timeouts := timeouts st @ [(nextTimeout st, start, end)],
         nextTimeout := nextTimeout st + 1\<rparr>)"

definition linkifyRows :: "nat \<Rightarrow> nat \<Rightarrow> linkifier \<Rightarrow> linkifier" where
  "linkifyRows start end st =
     (case mouseZoneManager st of
        None \<Rightarrow> st
      | Some zones \<Rightarrow>
          let st1 = st\<lparr>mouseZoneManager := Some []\<rparr>;
              st2 = (if truthy (rowsTimeoutId st1) then clearTimeout (rowsTimeoutId st1) st1
                     else st1);
              armed = setTimeout start end st2
          in (snd armed)\<lparr>rowsTimeoutId := Some (fst armed)\<rparr>)"

subsection \<open>Scanning a row\<close>

text \<open>
  \<^verbatim>\<open>_addLink\<close> (lines 251 to 273). Reading \<^verbatim>\<open>uri.length\<close> of an undefined link text, or
  calling \<^verbatim>\<open>add\<close> on a missing manager, throws.
\<close>

definition addLink :: "int \<Rightarrow> nat \<Rightarrow> string option \<Rightarrow> linkMatcher \<Rightarrow> linkifier \<Rightarrow> unit outcome" where
  "addLink x yy uri matcher st =
     (case mouseZoneManager st of
        None \<Rightarrow> Thrown TypeError st
      | Some zones \<Rightarrow>
          (case uri of
             None \<Rightarrow> Thrown TypeError st
           | Some u \<Rightarrow>
               Returned () (st\<lparr>mouseZoneManager := Some (zones @
                 [\<lparr>x1 = x + 1, x2 = x + 1 + int (length u), y = yy + 1,
                   zoneUri = u, zoneMatcher = matcherId matcher\<rparr>])\<rparr>)))"

text \<open>
  The completion function of lines 223 to 231, called with \<open>isValid\<close>; the first four
  arguments are what the closure holds.
\<close>

definition complete :: "int \<Rightarrow> nat \<Rightarrow> string option \<Rightarrow> linkMatcher \<Rightarrow> bool \<Rightarrow> linkifier \<Rightarrow> unit outcome" where
  "complete x rowIndex uri matcher isValid st =
     (if truthy (rowsTimeoutId st) then Returned () st
      else if isValid then addLink x rowIndex uri matcher st
      else Returned () st)"

text \<open>
  Lines 222 to 234 of \<^verbatim>\<open>_doLinkifyRow\<close>: the occurrence goes to the validation callback
  when the matcher has one, and straight to \<^verbatim>\<open>_addLink\<close> otherwise. A callback that keeps
  the completion function leaves it with the host.
\<close>

definition validate ::
  "int \<Rightarrow> nat \<Rightarrow> string \<Rightarrow> string option \<Rightarrow> linkMatcher \<Rightarrow> linkifier \<Rightarrow> unit outcome" where
  "validate x rowIndex text uri matcher st =
     (case validationCallback matcher of
        Some cb \<Rightarrow>
          (case cb text of
             Now isValid \<Rightarrow> complete x rowIndex uri matcher isValid st
           | Later \<Rightarrow>
               Returned () (st\<lparr>validations := validations st @
                 [\<lparr>c_x = x, c_rowIndex = rowIndex, c_uri = uri, c_matcher = matcher\<rparr>]\<rparr>))
      | None \<Rightarrow> addLink x rowIndex uri matcher st)"

text \<open>
  \<^verbatim>\<open>_doLinkifyRow\<close> (lines 206 to 242). Reading \<^verbatim>\<open>uri.length\<close> in line 237 throws when
  the selected group is undefined. \<open>None\<close>: the recursion does not end.
\<close>

partial_function (option) doLinkifyRow ::
  "nat \<Rightarrow> string \<Rightarrow> linkMatcher \<Rightarrow> int \<Rightarrow> linkifier \<Rightarrow> unit outcome option" where
  "doLinkifyRow rowIndex text matcher offset st =
     (case str_match text (regex matcher) of
        None \<Rightarrow> Some (Returned () st)
      | Some match \<Rightarrow>
          if length match = 0 then Some (Returned () st)
          else
            let uri = element match (case matchIndex matcher of None \<Rightarrow> 0 | Some i \<Rightarrow> i);
                index = indexOf text (toString uri)
            in (case validate (offset + index) rowIndex text uri matcher st of
                  Thrown e st' \<Rightarrow> Some (Thrown e st')
                | Returned u st' \<Rightarrow>
                    (case uri of
                       None \<Rightarrow> Some (Thrown TypeError st')
                     | Some link \<Rightarrow>
                         let remainingStartIndex = index + int (length link);
                             remainingText = substr text remainingStartIndex
                         in if length remainingText > 0
                            then doLinkifyRow rowIndex remainingText matcher
                                   (offset + remainingStartIndex) st'
                            else Some (Returned () st'))))"

declare doLinkifyRow.simps [code]

text \<open>The loop of \<^verbatim>\<open>_linkifyRow\<close> over the matchers (lines 192 to 194), at index \<open>i\<close>.\<close>

partial_function (option) private_linkifyRow_loop ::
  "nat \<Rightarrow> string \<Rightarrow> nat \<Rightarrow> linkifier \<Rightarrow> unit outcome option" where
  "private_linkifyRow_loop rowIndex text i st =
     (if i < length (linkMatchers st)
      then case doLinkifyRow rowIndex text (linkMatchers st ! i) 0 st of
             None \<Rightarrow> None
           | Some (Thrown e st') \<Rightarrow> Some (Thrown e st')
           | Some (Returned u st') \<Rightarrow> private_linkifyRow_loop rowIndex text (i + 1) st'
      else Some (Returned () st))"

declare private_linkifyRow_loop.simps [code]

definition private_linkifyRow :: "nat \<Rightarrow> linkifier \<Rightarrow> unit outcome option" where
  "private_linkifyRow rowIndex st =
     (let absoluteRowIndex = ydisp (terminal st) + rowIndex
      in if absoluteRowIndex \<ge> length (lines (terminal st)) then Some (Returned () st)
         else let text = lines (terminal st) ! absoluteRowIndex
              in private_linkifyRow_loop rowIndex text 0 st)"

function private_linkifyRows_loop :: "nat \<Rightarrow> nat \<Rightarrow> linkifier \<Rightarrow> unit outcome option" where
  "private_linkifyRows_loop i end st =
     (if i \<le> end
      then case private_linkifyRow i st of
             None \<Rightarrow> None
           | Some (Thrown e st') \<Rightarrow> Some (Thrown e st')
           | Some (Returned u st') \<Rightarrow> private_linkifyRows_loop (i + 1) end st'
      else Some (Returned () st))"
  by pat_completeness auto
termination
  by (relation "measure (\<lambda>(i, end, st). Suc end - i)") auto

declare private_linkifyRows_loop.simps [simp del]

definition private_linkifyRows :: "nat \<Rightarrow> nat \<Rightarrow> linkifier \<Rightarrow> unit outcome option" where
  "private_linkifyRows start end st =
     private_linkifyRows_loop start end (st\<lparr>rowsTimeoutId := None\<rparr>)"

subsection \<open>The linkifier in its host\<close>

text \<open>
  What can happen to a linkifier: the calls of its public methods, a timer of the host
  firing (\<open>Timeout h\<close>, \<open>h\<close> the handle), a validation callback calling the completion
  function it kept (\<open>Validated n isValid\<close>, \<open>n\<close> the position among those kept), and the
  terminal's buffer changing (\<open>Refresh\<close>). An exception ends the call that raised it and
  leaves the state as it was then. \<open>None\<close>: the call does not return.
\<close>

datatype event =
    AttachToDom "mouseZone list"
  | LinkifyRows nat nat
  | Timeout nat
  | SetHypertextLinkHandler "callback option"
  | SetHypertextValidationCallback "(string \<Rightarrow> validation) option"
  | RegisterLinkMatcher regex "callback option" linkMatcherOptions
  | DeregisterLinkMatcher nat
  | Validated nat bool
  | Refresh buffer

definition timeout :: "nat \<Rightarrow> linkifier \<Rightarrow> linkifier option" where
  "timeout h st =
     (case find (\<lambda>t. fst t = h) (timeouts st) of
        None \<Rightarrow> Some st
      | Some t \<Rightarrow>
          map_option state_of
            (private_linkifyRows (fst (snd t)) (snd (snd t)) (clearTimeout (Some h) st)))"

definition validated :: "nat \<Rightarrow> bool \<Rightarrow> linkifier \<Rightarrow> linkifier" where
  "validated n isValid st =
     (if n < length (validations st)
      then let c = validations st ! n
           in state_of (complete (c_x c) (c_rowIndex c) (c_uri c) (c_matcher c) isValid st)
      else st)"

fun fire :: "event \<Rightarrow> linkifier \<Rightarrow> linkifier option" where
  "fire (AttachToDom zones) st = Some (attachToDom zones st)"
| "fire (LinkifyRows start end) st = Some (linkifyRows start end st)"
| "fire (Timeout h) st = timeout h st"
| "fire (SetHypertextLinkHandler h) st = Some (state_of (setHypertextLinkHandler h st))"
| "fire (SetHypertextValidationCallback cb) st =
     Some (state_of (setHypertextValidationCallback cb st))"
| "fire (RegisterLinkMatcher rx h options) st = Some (state_of (registerLinkMatcher rx h options st))"
| "fire (DeregisterLinkMatcher mid) st = Some (snd (deregisterLinkMatcher mid st))"
| "fire (Validated n isValid) st = Some (validated n isValid st)"
| "fire (Refresh b) st = Some (st\<lparr>terminal := b\<rparr>)"

fun run :: "event list \<Rightarrow> linkifier \<Rightarrow> linkifier option" where
  "run [] st = Some st"
| "run (e # es) st = (case fire e st of None \<Rightarrow> None | Some st' \<Rightarrow> run es st')"

inductive reachable :: "linkifier \<Rightarrow> bool" where
  start: "reachable (new_Linkifier term)"
| step: "reachable st \<Longrightarrow> fire e st = Some st' \<Longrightarrow> reachable st'"

subsection \<open>Scenarios\<close>

definition options_with_priority :: "int \<Rightarrow> linkMatcherOptions" where
  "options_with_priority p =
     \<lparr>o_matchIndex = None, o_validationCallback = None, o_hoverStartCallback = None,
      o_hoverEndCallback = None, o_priority = Some p\<rparr>"

text \<open>
  A linkifier on which \<^verbatim>\<open>registerLinkMatcher(/ab/, handler, {priority: 1})\<close> has been called
  once: the new matcher has id 1 and precedes the built-in one of priority 0.
\<close>

definition with_priority_matcher :: linkifier where
  "with_priority_matcher =
     state_of (registerLinkMatcher (lit ''ab'') (Some 5) (options_with_priority 1)
                 (new_Linkifier \<lparr>ydisp = 0, lines = []\<rparr>))"

text \<open>A matcher whose validation callback keeps the completion function for later.\<close>

definition deferred_options :: linkMatcherOptions where
  "deferred_options =
     \<lparr>o_matchIndex = None, o_validationCallback = Some (\<lambda>t. Later),
      o_hoverStartCallback = None, o_hoverEndCallback = None, o_priority = None\<rparr>"

text \<open>
  A scan of the row \<^verbatim>\<open>ab\<close> finds an occurrence and hands its completion function to the
  validation callback; the row changes to \<^verbatim>\<open>xy\<close> and a new scan is requested. In the first
  trace the callback answers while the new scan is pending, in the second after its timer
  has fired.
\<close>

definition answer_while_pending :: "event list" where
  "answer_while_pending =
     [AttachToDom [], RegisterLinkMatcher (lit ''ab'') (Some 5) deferred_options,
      LinkifyRows 0 0, Timeout 1, Refresh \<lparr>ydisp = 0, lines = [''xy'']\<rparr>,
      LinkifyRows 0 0, Validated 0 True, Timeout 2]"

definition answer_after_rescan :: "event list" where
  "answer_after_rescan =
     [AttachToDom [], RegisterLinkMatcher (lit ''ab'') (Some 5) deferred_options,
      LinkifyRows 0 0, Timeout 1, Refresh \<lparr>ydisp = 0, lines = [''xy'']\<rparr>,
      LinkifyRows 0 0, Timeout 2, Validated 0 True]"

subsection \<open>Predicates of the properties\<close>

text \<open>
  Where the captures \<open>k'\<close> come from: each is a capture of \<open>k\<close> or a piece of \<open>t\<close>.
\<close>

definition captures_from :: "captures \<Rightarrow> string \<Rightarrow> captures \<Rightarrow> bool" where
  "captures_from k t k' = (\<forall>i u. k' i = Some u \<longrightarrow> k i = Some u \<or> sublist u t)"

text \<open>The suffixes of a text, the text itself first.\<close>

fun tails :: "'a list \<Rightarrow> 'a list list" where
  "tails [] = [[]]"
| "tails (x # xs) = (x # xs) # tails xs"

text \<open>
  On the text \<open>t\<close> the matcher does not select an empty link text: the pattern has no match
  in \<open>t\<close>, or \<open>t\<close> is empty, or the selected group is undefined or a non-empty string.
\<close>

definition nonempty_selection :: "linkMatcher \<Rightarrow> string \<Rightarrow> bool" where
  "nonempty_selection matcher t =
     (case str_match t (regex matcher) of
        None \<Rightarrow> True
      | Some match \<Rightarrow>
          t = [] \<or> element match (case matchIndex matcher of None \<Rightarrow> 0 | Some i \<Rightarrow> i) \<noteq> Some [])"

text \<open>A matcher for the pattern \<^verbatim>\<open>/a*/\<close>, which matches the empty string.\<close>

definition empty_matcher :: linkMatcher where
  "empty_matcher =
     \<lparr>matcherId = 1, regex = star (Chr CHR ''a''), handler = Some 5, matchIndex = None,
      validationCallback = None, hoverStartCallback = None, hoverEndCallback = None,
      priority = 0\<rparr>"

text \<open>What a scan leaves alone: every field but the zones and the kept completion functions.\<close>

definition scan_frame :: "linkifier \<Rightarrow> linkifier \<Rightarrow> bool" where
  "scan_frame st st' =
     (linkMatchers st' = linkMatchers st \<and> rowsTimeoutId st' = rowsTimeoutId st
      \<and> nextLinkMatcherId st' = nextLinkMatcherId st \<and> terminal st' = terminal st
      \<and> timeouts st' = timeouts st \<and> nextTimeout st' = nextTimeout st)"

text \<open>
  The order of the registry: a matcher of higher priority comes first, and of two matchers
  of equal priority the one registered earlier, which is the one with the smaller id
  (\<^verbatim>\<open>registerLinkMatcher\<close> hands the ids out in increasing order).
\<close>

definition registry_ordered :: "linkMatcher list \<Rightarrow> bool" where
  "registry_ordered ms =
     sorted_wrt (\<lambda>a b. priority b < priority a
                      \<or> (priority a = priority b \<and> matcherId a < matcherId b)) ms"

text \<open>A sequence of calls of \<^verbatim>\<open>registerLinkMatcher\<close>, each with its three arguments.\<close>

fun register_all ::
  "(regex \<times> callback option \<times> linkMatcherOptions) list \<Rightarrow> linkifier \<Rightarrow> linkifier" where
  "register_all [] st = st"
| "register_all (c # cs) st =
     register_all cs (state_of (registerLinkMatcher (fst c) (fst (snd c)) (snd (snd c)) st))"

definition registry_inv :: "linkifier \<Rightarrow> bool" where
  "registry_inv st =
     (registry_ordered (linkMatchers st)
      \<and> list_all (\<lambda>m. matcherId m < nextLinkMatcherId st) (linkMatchers st)
      \<and> 0 < nextLinkMatcherId st \<and> linkMatchers st \<noteq> [])"

text \<open>
  The timers of the host and the field \<^verbatim>\<open>_rowsTimeoutId\<close>: handles are positive, and the
  timer the field names is the only one armed.
\<close>

definition timer_inv :: "linkifier \<Rightarrow> bool" where
  "timer_inv st =
     (0 < nextTimeout st
      \<and> (case rowsTimeoutId st of
            None \<Rightarrow> timeouts st = []
          | Some h \<Rightarrow> 0 < h \<and> map fst (timeouts st) = [h]))"

fun returned :: "'a outcome \<Rightarrow> 'a option" where
  "returned (Returned v st) = Some v"
| "returned (Thrown e st) = None"

text \<open>The rows \<open>rs\<close> scanned one after the other, up to the first exception.\<close>

fun scan_rows :: "nat list \<Rightarrow> linkifier \<Rightarrow> unit outcome option" where
  "scan_rows [] st = Some (Returned () st)"
| "scan_rows (r # rs) st =
     (case private_linkifyRow r st of
        None \<Rightarrow> None
      | Some (Thrown e st') \<Rightarrow> Some (Thrown e st')
      | Some (Returned u st') \<Rightarrow> scan_rows rs st')"

section \<open>A scan and the registry\<close>

lemma scan_frame_refl: "scan_frame st st"
  by (simp add: scan_frame_def)

lemma scan_frame_trans: "scan_frame a b \<Longrightarrow> scan_frame b c \<Longrightarrow> scan_frame a c"
  by (simp add: scan_frame_def)

lemma addLink_frame: "scan_frame st (state_of (addLink x r u m st))"
  by (simp add: addLink_def scan_frame_def split: option.splits)

lemma complete_frame: "scan_frame st (state_of (complete x r u m b st))"
  using addLink_frame by (simp add: complete_def scan_frame_refl)

lemma validate_frame: "scan_frame st (state_of (validate x r t u m st))"
  using addLink_frame complete_frame
  by (simp add: validate_def scan_frame_def split: option.splits validation.splits)

lemma validate_frame_Returned: "validate x r t u m st = Returned v st' \<Longrightarrow> scan_frame st st'"
  using validate_frame[of st x r t u m] by simp

lemma validate_frame_Thrown: "validate x r t u m st = Thrown e st' \<Longrightarrow> scan_frame st st'"
  using validate_frame[of st x r t u m] by simp

lemma doLinkifyRow_frame:
  assumes "doLinkifyRow rowIndex t matcher offset st = Some out"
  shows "scan_frame st (state_of out)"
  using assms
proof (induction rowIndex t matcher offset st out rule: doLinkifyRow.raw_induct[rotated 1, consumes 1])
  case (1 f rowIndex t matcher offset st out)
  show ?case
  proof (cases "str_match t (regex matcher)")
    case None
    with 1(2) show ?thesis by (auto simp: scan_frame_refl)
  next
    case (Some match)
    show ?thesis
    proof (cases "length match = 0")
      case True
      with 1(2) Some show ?thesis by (auto simp: scan_frame_refl)
    next
      case False
      let ?uri = "element match (case matchIndex matcher of None \<Rightarrow> 0 | Some i \<Rightarrow> i)"
      let ?index = "indexOf t (toString ?uri)"
      let ?v = "validate (offset + ?index) rowIndex t ?uri matcher st"
      have fr: "scan_frame st (state_of ?v)"
        by (rule validate_frame)
      show ?thesis
      proof (cases ?v)
        case (Thrown e st')
        with 1(2) Some False have "out = Thrown e st'"
          by (simp add: Let_def)
        with fr Thrown show ?thesis by simp
      next
        case (Returned u st')
        with fr have fr': "scan_frame st st'" by simp
        show ?thesis
        proof (cases ?uri)
          case None
          with 1(2) Some False Returned have "out = Thrown TypeError st'"
            by (simp add: Let_def)
          with fr' show ?thesis by simp
        next
          case (Some link)
          let ?rest = "substr t (?index + int (length link))"
          show ?thesis
          proof (cases "length ?rest > 0")
            case True
            with 1(2) \<open>str_match t (regex matcher) = Some match\<close> False Returned Some
            have "f rowIndex ?rest matcher (offset + (?index + int (length link))) st' = Some out"
              by (simp add: Let_def)
            from 1(1)[OF this] fr' show ?thesis by (rule scan_frame_trans[rotated])
          next
            case F: False
            with 1(2) \<open>str_match t (regex matcher) = Some match\<close> False Returned Some
            have "out = Returned () st'"
              by (simp add: Let_def)
            with fr' show ?thesis by simp
          qed
        qed
      qed
    qed
  qed
qed

lemma private_linkifyRow_loop_frame:
  assumes "private_linkifyRow_loop rowIndex t i st = Some out"
  shows "scan_frame st (state_of out)"
  using assms
proof (induction rowIndex t i st out rule: private_linkifyRow_loop.raw_induct[rotated 1, consumes 1])
  case (1 f rowIndex t i st out)
  show ?case
  proof (cases "i < length (linkMatchers st)")
    case False
    with 1(2) show ?thesis by (auto simp: scan_frame_refl)
  next
    case True
    with 1(2) obtain o1 where o1: "doLinkifyRow rowIndex t (linkMatchers st ! i) 0 st = Some o1"
      by (auto split: option.splits)
    note fr = doLinkifyRow_frame[OF o1]
    show ?thesis
    proof (cases o1)
      case (Thrown e st')
      with 1(2) True o1 fr show ?thesis by auto
    next
      case (Returned u st')
      with 1(2) True o1 have "f rowIndex t (i + 1) st' = Some out" by simp
      from 1(1)[OF this] fr Returned show ?thesis by (auto intro: scan_frame_trans)
    qed
  qed
qed

lemma private_linkifyRow_frame:
  "private_linkifyRow rowIndex st = Some out \<Longrightarrow> scan_frame st (state_of out)"
  unfolding private_linkifyRow_def
  by (auto simp: Let_def scan_frame_refl split: if_splits dest: private_linkifyRow_loop_frame)

lemma private_linkifyRows_loop_frame:
  "private_linkifyRows_loop i e st = Some out \<Longrightarrow> scan_frame st (state_of out)"
proof (induction i e st rule: private_linkifyRows_loop.induct)
  case (1 i e st)
  note unfold = private_linkifyRows_loop.simps [of i e st]
  show ?case
  proof (cases "i \<le> e")
    case False
    with 1(2) unfold show ?thesis by (auto simp: scan_frame_refl)
  next
    case True
    with 1(2) unfold obtain o1 where o1: "private_linkifyRow i st = Some o1"
      by (auto split: option.splits)
    note fr = private_linkifyRow_frame[OF o1]
    show ?thesis
    proof (cases o1)
      case (Thrown e' st')
      with 1(2) unfold True o1 fr show ?thesis by auto
    next
      case (Returned u st')
      with 1(2) unfold True o1 have "private_linkifyRows_loop (i + 1) e st' = Some out" by simp
      from 1(1)[OF True o1 Returned this] fr Returned show ?thesis by (auto intro: scan_frame_trans)
    qed
  qed
qed

text \<open>
  C10. A scan pass (the timer's call of \<^verbatim>\<open>_linkifyRows\<close>) over any row range leaves the list
  of matchers as it was, entry by entry and in the same order, whether the pass returns or
  is ended by an exception.
\<close>

theorem scan_keeps_registry:
  "private_linkifyRows start end st = Some out \<Longrightarrow> linkMatchers (state_of out) = linkMatchers st"
  unfolding private_linkifyRows_def
  by (drule private_linkifyRows_loop_frame) (simp add: scan_frame_def)

theorem scan_keeps_registry_witness:
  "private_linkifyRows 0 1
     (attachToDom [] (new_Linkifier \<lparr>ydisp = 0, lines = [''see http://a.io'', ''b'']\<rparr>)) \<noteq> None
   \<and> linkMatchers (state_of (the (private_linkifyRows 0 1
         (attachToDom [] (new_Linkifier \<lparr>ydisp = 0, lines = [''see http://a.io'', ''b'']\<rparr>)))))
     = linkMatchers (attachToDom [] (new_Linkifier \<lparr>ydisp = 0, lines = [''see http://a.io'', ''b'']\<rparr>))"
proof -
  let ?st = "attachToDom [] (new_Linkifier \<lparr>ydisp = 0, lines = [''see http://a.io'', ''b'']\<rparr>)"
  have ret: "private_linkifyRows 0 1 ?st \<noteq> None"
    by code_simp
  then have "private_linkifyRows 0 1 ?st = Some (the (private_linkifyRows 0 1 ?st))"
    by simp
  from scan_keeps_registry [OF this] ret show ?thesis
    by simp
qed

section \<open>The order of the registry\<close>

lemma splice_ordered:
  assumes ord: "registry_ordered ms"
    and ids: "\<forall>x \<in> set ms. matcherId x < matcherId m"
    and before: "\<forall>x \<in> set (take n ms). priority m \<le> priority x"
    and after: "\<forall>x \<in> set (drop n ms). priority x < priority m"
  shows "registry_ordered (splice ms n m)"
proof -
  have "sorted_wrt (\<lambda>a b. priority b < priority a
                      \<or> (priority a = priority b \<and> matcherId a < matcherId b)) (take n ms @ drop n ms)"
    using ord by (simp add: registry_ordered_def)
  then show ?thesis
    using ids before after
    unfolding registry_ordered_def splice_def sorted_wrt_append
    by (auto dest: in_set_takeD in_set_dropD)
qed

lemma loop_ordered:
  assumes "registry_ordered ms" "\<forall>x \<in> set ms. matcherId x < matcherId m"
    "n \<le> length ms" "\<forall>x \<in> set (drop n ms). priority x < priority m"
  shows "registry_ordered (addLinkMatcherToList_loop m ms n)"
  using assms
proof (induction n)
  case 0
  then show ?case by (simp add: splice_ordered)
next
  case (Suc i)
  then have i: "i < length ms" by simp
  show ?case
  proof (cases "priority m \<le> priority (ms ! i)")
    case True
    have "\<forall>x \<in> set (take (Suc i) ms). priority m \<le> priority x"
    proof
      fix x assume "x \<in> set (take (Suc i) ms)"
      then have "x \<in> set (take i ms) \<or> x = ms ! i"
        using i by (auto simp: take_Suc_conv_app_nth)
      moreover have "ms ! i \<in> set (drop i ms)"
        using i by (metis Cons_nth_drop_Suc list.set_intros(1))
      moreover have "sorted_wrt (\<lambda>a b. priority b < priority a
                      \<or> (priority a = priority b \<and> matcherId a < matcherId b)) (take i ms @ drop i ms)"
        using Suc.prems(1) by (simp add: registry_ordered_def)
      ultimately have "priority (ms ! i) \<le> priority x"
        unfolding sorted_wrt_append by (auto dest!: bspec)
      with True show "priority m \<le> priority x" by simp
    qed
    with Suc.prems True show ?thesis
      by (simp add: splice_ordered)
  next
    case False
    have "drop i ms = ms ! i # drop (Suc i) ms"
      using i by (simp add: Cons_nth_drop_Suc)
    with False Suc.prems have "\<forall>x \<in> set (drop i ms). priority x < priority m"
      by auto
    with Suc False i show ?thesis by simp
  qed
qed

lemma set_loop: "n \<le> length ms \<Longrightarrow> set (addLinkMatcherToList_loop m ms n) = insert m (set ms)"
proof (induction n)
  case 0
  then show ?case by (simp add: splice_def)
next
  case (Suc i)
  have "set (take k ms) \<union> set (drop k ms) = set ms" for k
    by (metis append_take_drop_id set_append)
  with Suc show ?case by (auto simp: splice_def)
qed

lemma register_inv:
  assumes "registry_inv st \<or> (linkMatchers st = [] \<and> nextLinkMatcherId st = 0)"
  shows "registry_inv (state_of (registerLinkMatcher rx h opts st))"
proof (cases "nextLinkMatcherId st \<noteq> HYPERTEXT_LINK_MATCHER_ID \<and> h = None")
  case True
  with assms show ?thesis
    by (auto simp: registerLinkMatcher_def HYPERTEXT_LINK_MATCHER_ID_def)
next
  case False
  let ?m = "\<lparr>matcherId = nextLinkMatcherId st, regex = rx, handler = h,
             matchIndex = o_matchIndex opts,
             validationCallback = o_validationCallback opts,
             hoverStartCallback = o_hoverStartCallback opts,
             hoverEndCallback = o_hoverEndCallback opts,
             priority = (case o_priority opts of None \<Rightarrow> 0 | Some p \<Rightarrow> p)\<rparr>"
  let ?ms = "linkMatchers st"
  from False have st': "state_of (registerLinkMatcher rx h opts st)
      = addLinkMatcherToList ?m (st\<lparr>nextLinkMatcherId := nextLinkMatcherId st + 1\<rparr>)"
    by (auto simp: registerLinkMatcher_def Let_def)
  show ?thesis
  proof (cases "?ms = []")
    case True
    then show ?thesis
      unfolding st' by (simp add: addLinkMatcherToList_def registry_inv_def registry_ordered_def)
  next
    case F: False
    with assms have inv: "registry_inv st" by auto
    then have ids: "\<forall>x \<in> set ?ms. matcherId x < matcherId ?m"
      by (simp add: registry_inv_def list_all_iff)
    from inv have "registry_ordered (addLinkMatcherToList_loop ?m ?ms (length ?ms))"
      by (intro loop_ordered ids) (simp_all add: registry_inv_def)
    moreover have "set (addLinkMatcherToList_loop ?m ?ms (length ?ms)) = insert ?m (set ?ms)"
      by (simp add: set_loop)
    ultimately show ?thesis
      unfolding st' using F inv
      by (auto simp: addLinkMatcherToList_def registry_inv_def list_all_iff)
  qed
qed

lemma new_Linkifier_inv: "registry_inv (new_Linkifier term)"
  unfolding new_Linkifier_def by (rule register_inv) (simp add: HYPERTEXT_LINK_MATCHER_ID_def)

lemma register_all_inv: "registry_inv st \<Longrightarrow> registry_inv (register_all calls st)"
  by (induction calls arbitrary: st) (simp_all add: register_inv)

text \<open>
  C3. After any sequence of \<^verbatim>\<open>registerLinkMatcher\<close> calls on a freshly constructed linkifier
  (calls that throw included), the matchers are in descending order of priority, and of two
  matchers of equal priority the one registered earlier comes first.
\<close>

theorem registry_sorted_after_registrations:
  "registry_ordered (linkMatchers (register_all calls (new_Linkifier term)))"
  using register_all_inv [OF new_Linkifier_inv] by (simp add: registry_inv_def)

section \<open>What holds in every reachable state\<close>

lemma deregister_loop_result:
  "snd (deregisterLinkMatcher_loop mid i ms) = ms
   \<or> (\<exists>j. i \<le> j \<and> j < length ms \<and> snd (deregisterLinkMatcher_loop mid i ms) = take j ms @ drop (Suc j) ms)"
proof (induction mid i ms rule: deregisterLinkMatcher_loop.induct)
  case (1 mid i ms)
  show ?case
  proof (cases "i < length ms \<and> matcherId (ms ! i) \<noteq> mid")
    case True
    with 1 have "snd (deregisterLinkMatcher_loop mid (Suc i) ms) = ms
       \<or> (\<exists>j. Suc i \<le> j \<and> j < length ms
             \<and> snd (deregisterLinkMatcher_loop mid (Suc i) ms) = take j ms @ drop (Suc j) ms)"
      by simp
    moreover from True have "deregisterLinkMatcher_loop mid i ms = deregisterLinkMatcher_loop mid (Suc i) ms"
      by (subst deregisterLinkMatcher_loop.simps) simp
    ultimately show ?thesis by (metis Suc_leD)
  next
    case False
    then show ?thesis
      by (subst (1 2) deregisterLinkMatcher_loop.simps) auto
  qed
qed

lemma remove_ordered:
  assumes "registry_ordered ms" "j < length ms"
  shows "registry_ordered (take j ms @ drop (Suc j) ms)"
proof -
  have "sorted_wrt (\<lambda>a b. priority b < priority a
          \<or> (priority a = priority b \<and> matcherId a < matcherId b)) (take j ms @ ms ! j # drop (Suc j) ms)"
    using assms by (simp add: registry_ordered_def Cons_nth_drop_Suc)
  then show ?thesis
    unfolding registry_ordered_def sorted_wrt_append by auto
qed

lemma remove_inv:
  assumes "registry_inv st" "1 \<le> j" "j < length (linkMatchers st)"
  shows "registry_inv (st\<lparr>linkMatchers := take j (linkMatchers st) @ drop (Suc j) (linkMatchers st)\<rparr>)"
proof -
  let ?ms = "linkMatchers st"
  let ?r = "take j ?ms @ drop (Suc j) ?ms"
  from assms have "registry_ordered ?r"
    by (simp add: registry_inv_def remove_ordered)
  moreover have "set ?r \<subseteq> set ?ms"
    by (auto dest: in_set_takeD in_set_dropD)
  with assms(1) have "list_all (\<lambda>m. matcherId m < nextLinkMatcherId st) ?r"
    unfolding registry_inv_def list_all_iff by blast
  moreover from assms(2,3) have "take j ?ms \<noteq> []"
    by (cases ?ms) simp_all
  ultimately show ?thesis
    using assms(1) by (simp add: registry_inv_def)
qed

lemma deregister_inv:
  assumes "registry_inv st"
  shows "registry_inv (snd (deregisterLinkMatcher mid st))"
proof -
  let ?ms = "linkMatchers st"
  let ?r = "snd (deregisterLinkMatcher_loop mid 1 ?ms)"
  have st': "snd (deregisterLinkMatcher mid st) = st\<lparr>linkMatchers := ?r\<rparr>"
    by (simp add: deregisterLinkMatcher_def Let_def)
  from deregister_loop_result [of mid 1 ?ms]
  show ?thesis
  proof
    assume same: "?r = ?ms"
    have "st\<lparr>linkMatchers := ?ms\<rparr> = st"
      by simp
    with assms show ?thesis
      unfolding st' same by (simp only:)
  next
    assume "\<exists>j. 1 \<le> j \<and> j < length ?ms \<and> ?r = take j ?ms @ drop (Suc j) ?ms"
    then obtain j where j: "1 \<le> j" "j < length ?ms" and r: "?r = take j ?ms @ drop (Suc j) ?ms"
      by blast
    show ?thesis
      unfolding st' r by (rule remove_inv [OF assms j])
  qed
qed

lemma update_head_inv:
  assumes "registry_inv st" "matcherId m' = matcherId (linkMatchers st ! 0)"
    "priority m' = priority (linkMatchers st ! 0)"
  shows "registry_inv (st\<lparr>linkMatchers := (linkMatchers st)[0 := m']\<rparr>)"
  using assms by (cases "linkMatchers st") (auto simp: registry_inv_def registry_ordered_def)

lemma setHandler_inv: "registry_inv st \<Longrightarrow> registry_inv (state_of (setHypertextLinkHandler h st))"
  by (simp add: setHypertextLinkHandler_def HYPERTEXT_LINK_MATCHER_ID_def update_head_inv)

lemma setValidation_inv:
  "registry_inv st \<Longrightarrow> registry_inv (state_of (setHypertextValidationCallback cb st))"
  by (simp add: setHypertextValidationCallback_def HYPERTEXT_LINK_MATCHER_ID_def update_head_inv)

lemma private_linkifyRows_frame:
  "private_linkifyRows s e st = Some out \<Longrightarrow> scan_frame (st\<lparr>rowsTimeoutId := None\<rparr>) (state_of out)"
  unfolding private_linkifyRows_def by (rule private_linkifyRows_loop_frame)

lemma timeout_cases:
  assumes "timeout h st = Some st'"
  shows "st' = st \<or> (\<exists>s e. (h, s, e) \<in> set (timeouts st)
            \<and> scan_frame (st\<lparr>timeouts := filter (\<lambda>t. fst t \<noteq> h) (timeouts st), rowsTimeoutId := None\<rparr>) st')"
proof (cases "find (\<lambda>t. fst t = h) (timeouts st)")
  case None
  with assms show ?thesis by (simp add: timeout_def)
next
  case (Some t)
  then have t: "t \<in> set (timeouts st)" "fst t = h"
    by (auto simp: find_Some_iff)
  from assms Some obtain out where out:
    "private_linkifyRows (fst (snd t)) (snd (snd t)) (clearTimeout (Some h) st) = Some out"
    "st' = state_of out"
    by (auto simp: timeout_def)
  from private_linkifyRows_frame [OF out(1)] out(2)
  have "scan_frame (st\<lparr>timeouts := filter (\<lambda>t. fst t \<noteq> h) (timeouts st), rowsTimeoutId := None\<rparr>) st'"
    by (simp add: clearTimeout_def scan_frame_def)
  moreover from t have "(h, fst (snd t), snd (snd t)) \<in> set (timeouts st)"
    by (metis prod.collapse)
  ultimately show ?thesis by blast
qed

lemma timeout_inv:
  assumes "timeout h st = Some st'" "registry_inv st" "timer_inv st"
  shows "registry_inv st' \<and> timer_inv st'"
  using timeout_cases [OF assms(1)]
proof
  assume "st' = st"
  with assms show ?thesis by simp
next
  assume "\<exists>s e. (h, s, e) \<in> set (timeouts st)
            \<and> scan_frame (st\<lparr>timeouts := filter (\<lambda>t. fst t \<noteq> h) (timeouts st), rowsTimeoutId := None\<rparr>) st'"
  then obtain s e where mem: "(h, s, e) \<in> set (timeouts st)"
    and fr: "scan_frame (st\<lparr>timeouts := filter (\<lambda>t. fst t \<noteq> h) (timeouts st), rowsTimeoutId := None\<rparr>) st'"
    by blast
  from mem assms(3) have "filter (\<lambda>t. fst t \<noteq> h) (timeouts st) = []"
    by (cases "timeouts st") (auto simp: timer_inv_def split: option.splits)
  with fr assms(2,3) show ?thesis
    by (simp add: scan_frame_def registry_inv_def timer_inv_def)
qed

lemma linkifyRows_inv:
  assumes "registry_inv st" "timer_inv st"
  shows "registry_inv (linkifyRows s e st) \<and> timer_inv (linkifyRows s e st)"
proof (cases "mouseZoneManager st")
  case None
  with assms show ?thesis by (simp add: linkifyRows_def)
next
  case (Some zs)
  show ?thesis
  proof (cases "rowsTimeoutId st")
    case None
    with Some assms show ?thesis
      by (simp add: linkifyRows_def Let_def setTimeout_def registry_inv_def timer_inv_def)
  next
    case Some1: (Some h)
    with assms have "filter (\<lambda>t. Some (fst t) \<noteq> Some h) (timeouts st) = []" "0 < h"
      by (cases "timeouts st"; auto simp: timer_inv_def)+
    with Some Some1 assms show ?thesis
      by (simp add: linkifyRows_def Let_def setTimeout_def clearTimeout_def registry_inv_def timer_inv_def)
  qed
qed

lemma validated_frame: "scan_frame st (validated n b st)"
  by (simp add: validated_def Let_def scan_frame_refl complete_frame)

lemma timer_inv_cong:
  "rowsTimeoutId st' = rowsTimeoutId st \<Longrightarrow> timeouts st' = timeouts st
   \<Longrightarrow> nextTimeout st' = nextTimeout st \<Longrightarrow> timer_inv st \<Longrightarrow> timer_inv st'"
  by (simp add: timer_inv_def split: option.splits)

lemma registry_inv_cong:
  "linkMatchers st' = linkMatchers st \<Longrightarrow> nextLinkMatcherId st' = nextLinkMatcherId st
   \<Longrightarrow> registry_inv st \<Longrightarrow> registry_inv st'"
  by (simp add: registry_inv_def)

lemma fire_inv:
  assumes "fire ev st = Some st'" "registry_inv st" "timer_inv st"
  shows "registry_inv st' \<and> timer_inv st'"
proof (cases ev)
  case (AttachToDom zs)
  with assms(1) have "st' = st\<lparr>mouseZoneManager := Some zs\<rparr>"
    by (simp add: attachToDom_def)
  then show ?thesis
    using registry_inv_cong [OF _ _ assms(2), of st'] timer_inv_cong [OF _ _ _ assms(3), of st']
    by simp
next
  case (LinkifyRows s e)
  with assms linkifyRows_inv show ?thesis by auto
next
  case (Timeout h)
  with assms timeout_inv show ?thesis by auto
next
  case (SetHypertextLinkHandler h)
  with assms(1) have st': "st' = state_of (setHypertextLinkHandler h st)" by simp
  have "timer_inv st'"
    unfolding st'
    by (rule timer_inv_cong [OF _ _ _ assms(3)]) (simp_all add: setHypertextLinkHandler_def)
  with assms(2) show ?thesis
    unfolding st' by (simp add: setHandler_inv)
next
  case (SetHypertextValidationCallback cb)
  with assms(1) have st': "st' = state_of (setHypertextValidationCallback cb st)" by simp
  have "timer_inv st'"
    unfolding st'
    by (rule timer_inv_cong [OF _ _ _ assms(3)]) (simp_all add: setHypertextValidationCallback_def)
  with assms(2) show ?thesis
    unfolding st' by (simp add: setValidation_inv)
next
  case (RegisterLinkMatcher rx h opts)
  with assms(1) have st': "st' = state_of (registerLinkMatcher rx h opts st)" by simp
  have "timer_inv st'"
    unfolding st'
    by (rule timer_inv_cong [OF _ _ _ assms(3)])
       (simp_all add: registerLinkMatcher_def addLinkMatcherToList_def Let_def)
  with assms(2) show ?thesis
    unfolding st' by (simp add: register_inv)
next
  case (DeregisterLinkMatcher mid)
  with assms(1) have st': "st' = snd (deregisterLinkMatcher mid st)" by simp
  have "timer_inv st'"
    unfolding st'
    by (rule timer_inv_cong [OF _ _ _ assms(3)]) (simp_all add: deregisterLinkMatcher_def Let_def)
  with assms(2) show ?thesis
    unfolding st' by (simp add: deregister_inv)
next
  case (Validated n b)
  with assms(1) have st': "st' = validated n b st" by simp
  from validated_frame [of st n b] show ?thesis
    using registry_inv_cong [OF _ _ assms(2), of st'] timer_inv_cong [OF _ _ _ assms(3), of st']
    unfolding st' scan_frame_def by simp
next
  case (Refresh b)
  with assms(1) have "st' = st\<lparr>terminal := b\<rparr>" by simp
  then show ?thesis
    using registry_inv_cong [OF _ _ assms(2), of st'] timer_inv_cong [OF _ _ _ assms(3), of st']
    by simp
qed

lemma new_Linkifier_timer_inv: "timer_inv (new_Linkifier term)"
  by (simp add: new_Linkifier_def registerLinkMatcher_def addLinkMatcherToList_def
      HYPERTEXT_LINK_MATCHER_ID_def timer_inv_def)

lemma reachable_inv: "reachable st \<Longrightarrow> registry_inv st \<and> timer_inv st"
proof (induction rule: reachable.induct)
  case (start b)
  show ?case by (simp add: new_Linkifier_inv new_Linkifier_timer_inv)
next
  case (step st e st')
  then show ?case using fire_inv by blast
qed

lemma reachable_run: "reachable st \<Longrightarrow> run es st = Some st' \<Longrightarrow> reachable st'"
proof (induction es arbitrary: st)
  case Nil
  then show ?case by simp
next
  case (Cons e es)
  from Cons.prems(2) obtain st1 where st1: "fire e st = Some st1" "run es st1 = Some st'"
    by (auto split: option.splits)
  from Cons.prems(1) st1(1) have "reachable st1"
    by (rule reachable.step)
  with st1(2) show ?case
    by (rule Cons.IH [rotated])
qed

section \<open>Registering without a handler\<close>

text \<open>
  C8. In every state of a constructed linkifier, \<^verbatim>\<open>registerLinkMatcher\<close> without a handler
  throws the error \<^verbatim>\<open>handler must be defined\<close> and leaves the state as it was, and with a
  handler it returns the next id, which is larger than the id of every registered matcher;
  the id after it is the next one to be handed out.
\<close>

theorem register_needs_handler:
  assumes "reachable st"
  shows "registerLinkMatcher rx None opts st = Thrown (Error ''handler must be defined'') st
     \<and> returned (registerLinkMatcher rx (Some h) opts st) = Some (nextLinkMatcherId st)
     \<and> list_all (\<lambda>m. matcherId m < nextLinkMatcherId st) (linkMatchers st)
     \<and> nextLinkMatcherId (state_of (registerLinkMatcher rx (Some h) opts st)) = nextLinkMatcherId st + 1"
  using reachable_inv [OF assms]
  by (simp add: registerLinkMatcher_def registry_inv_def HYPERTEXT_LINK_MATCHER_ID_def Let_def
      addLinkMatcherToList_def)

theorem register_needs_handler_witness:
  "reachable (new_Linkifier \<lparr>ydisp = 0, lines = []\<rparr>)
   \<and> registerLinkMatcher (lit ''ab'') None
        \<lparr>o_matchIndex = None, o_validationCallback = None, o_hoverStartCallback = None,
         o_hoverEndCallback = None, o_priority = Some 3\<rparr>
        (new_Linkifier \<lparr>ydisp = 0, lines = []\<rparr>)
      = Thrown (Error ''handler must be defined'') (new_Linkifier \<lparr>ydisp = 0, lines = []\<rparr>)
   \<and> returned (registerLinkMatcher (lit ''ab'') (Some 5)
        \<lparr>o_matchIndex = None, o_validationCallback = None, o_hoverStartCallback = None,
         o_hoverEndCallback = None, o_priority = Some 3\<rparr>
        (new_Linkifier \<lparr>ydisp = 0, lines = []\<rparr>)) = Some 1"
proof -
  have r: "reachable (new_Linkifier \<lparr>ydisp = 0, lines = []\<rparr>)"
    by (rule reachable.start)
  have n: "nextLinkMatcherId (new_Linkifier \<lparr>ydisp = 0, lines = []\<rparr>) = 1"
    by code_simp
  from register_needs_handler [OF r, of "lit ''ab''"
      "\<lparr>o_matchIndex = None, o_validationCallback = None, o_hoverStartCallback = None,
        o_hoverEndCallback = None, o_priority = Some 3\<rparr>" 5] r n
  show ?thesis
    by simp
qed

section \<open>Scan requests\<close>

lemma loop_scan_rows: "private_linkifyRows_loop i e st = scan_rows [i..<Suc e] st"
proof (induction i e st rule: private_linkifyRows_loop.induct)
  case (1 i e st)
  show ?case
  proof (cases "i \<le> e")
    case False
    then show ?thesis
      by (subst private_linkifyRows_loop.simps) simp
  next
    case True
    then have "[i..<Suc e] = i # [i + 1..<Suc e]"
      by (simp add: upt_conv_Cons)
    with True 1 show ?thesis
      by (subst private_linkifyRows_loop.simps)
         (auto split: option.splits outcome.splits)
  qed
qed

lemma linkifyRows_attached:
  assumes "timer_inv st" "mouseZoneManager st \<noteq> None"
  shows "linkifyRows s e st =
     st\<lparr>mouseZoneManager := Some [], timeouts := [(nextTimeout st, s, e)],
        nextTimeout := nextTimeout st + 1, rowsTimeoutId := Some (nextTimeout st)\<rparr>"
proof (cases "rowsTimeoutId st")
  case None
  with assms show ?thesis
    by (auto simp: linkifyRows_def Let_def setTimeout_def timer_inv_def)
next
  case (Some h)
  with assms have "filter (\<lambda>t. Some (fst t) \<noteq> Some h) (timeouts st) = []" "0 < h"
    by (cases "timeouts st"; auto simp: timer_inv_def)+
  with Some assms show ?thesis
    by (auto simp: linkifyRows_def Let_def setTimeout_def clearTimeout_def)
qed

text \<open>
  C7. When \<^verbatim>\<open>linkifyRows\<close> is called twice on an attached linkifier with no timer firing in
  between, the only timer armed afterwards is the one of the second call, with the second
  call's rows; when it fires, the rows \<open>s2\<close> to \<open>e2\<close> inclusive are scanned and no timer is
  left, so the rows of the first call are never scanned on its account.
\<close>

theorem second_request_replaces_first:
  assumes "reachable st" "mouseZoneManager st \<noteq> None"
  shows "timeouts (linkifyRows s2 e2 (linkifyRows s1 e1 st)) = [(nextTimeout st + 1, s2, e2)]
     \<and> rowsTimeoutId (linkifyRows s2 e2 (linkifyRows s1 e1 st)) = Some (nextTimeout st + 1)
     \<and> timeout (nextTimeout st + 1) (linkifyRows s2 e2 (linkifyRows s1 e1 st))
         = map_option state_of (scan_rows [s2..<Suc e2]
             ((linkifyRows s2 e2 (linkifyRows s1 e1 st))\<lparr>timeouts := [], rowsTimeoutId := None\<rparr>))
     \<and> (case timeout (nextTimeout st + 1) (linkifyRows s2 e2 (linkifyRows s1 e1 st)) of
           None \<Rightarrow> True
         | Some st3 \<Rightarrow> timeouts st3 = [] \<and> rowsTimeoutId st3 = None)"
proof -
  let ?st1 = "linkifyRows s1 e1 st"
  let ?st2 = "linkifyRows s2 e2 ?st1"
  let ?h = "nextTimeout st + 1"
  from assms(1) have inv: "registry_inv st" "timer_inv st"
    using reachable_inv by auto
  have st1: "?st1 = st\<lparr>mouseZoneManager := Some [], timeouts := [(nextTimeout st, s1, e1)],
        nextTimeout := nextTimeout st + 1, rowsTimeoutId := Some (nextTimeout st)\<rparr>"
    using inv(2) assms(2) by (rule linkifyRows_attached)
  have inv1: "timer_inv ?st1"
    using linkifyRows_inv [OF inv] by simp
  have att1: "mouseZoneManager ?st1 \<noteq> None"
    by (simp add: st1)
  have st2: "?st2 = ?st1\<lparr>mouseZoneManager := Some [], timeouts := [(nextTimeout ?st1, s2, e2)],
        nextTimeout := nextTimeout ?st1 + 1, rowsTimeoutId := Some (nextTimeout ?st1)\<rparr>"
    using inv1 att1 by (rule linkifyRows_attached)
  have n1: "nextTimeout ?st1 = ?h"
    by (simp add: st1)
  have a: "timeouts ?st2 = [(?h, s2, e2)]"
    by (subst st2) (simp add: n1)
  have b: "rowsTimeoutId ?st2 = Some ?h"
    by (subst st2) (simp add: n1)
  have c: "timeout ?h ?st2 = map_option state_of (scan_rows [s2..<Suc e2]
             (?st2\<lparr>timeouts := [], rowsTimeoutId := None\<rparr>))"
    by (simp add: timeout_def a private_linkifyRows_def loop_scan_rows clearTimeout_def)
  have d: "(case timeout ?h ?st2 of None \<Rightarrow> True
         | Some st3 \<Rightarrow> timeouts st3 = [] \<and> rowsTimeoutId st3 = None)"
  proof (cases "timeout ?h ?st2")
    case None
    then show ?thesis by simp
  next
    case (Some st3)
    then obtain out where out: "private_linkifyRows_loop s2 e2
        (?st2\<lparr>timeouts := [], rowsTimeoutId := None\<rparr>) = Some out" "st3 = state_of out"
      unfolding c loop_scan_rows by auto
    from private_linkifyRows_loop_frame [OF out(1)] out(2) Some show ?thesis
      by (simp add: scan_frame_def)
  qed
  from a b c d show ?thesis by blast
qed

theorem second_request_replaces_first_witness:
  "reachable (attachToDom [] (new_Linkifier \<lparr>ydisp = 0, lines = []\<rparr>))
   \<and> mouseZoneManager (attachToDom [] (new_Linkifier \<lparr>ydisp = 0, lines = []\<rparr>)) \<noteq> None
   \<and> timeouts (linkifyRows 2 8 (linkifyRows 0 5
        (attachToDom [] (new_Linkifier \<lparr>ydisp = 0, lines = []\<rparr>)))) = [(2, 2, 8)]"
proof -
  let ?st = "attachToDom [] (new_Linkifier \<lparr>ydisp = 0, lines = []\<rparr>)"
  have "fire (AttachToDom []) (new_Linkifier \<lparr>ydisp = 0, lines = []\<rparr>) = Some ?st"
    by simp
  with reachable.start have r: "reachable ?st"
    by (rule reachable.step)
  have a: "mouseZoneManager ?st \<noteq> None"
    by (simp add: attachToDom_def)
  have n: "nextTimeout ?st = 1"
    by code_simp
  from second_request_replaces_first [OF r a, of 2 8 0 5] r a n show ?thesis
    by simp
qed

section \<open>The built-in matcher behind a matcher of higher priority\<close>

lemma with_priority_matcher_reachable: "reachable with_priority_matcher"
proof -
  have "fire (RegisterLinkMatcher (lit ''ab'') (Some 5) (options_with_priority 1))
          (new_Linkifier \<lparr>ydisp = 0, lines = []\<rparr>) = Some with_priority_matcher"
    by (simp add: with_priority_matcher_def)
  with reachable.start show ?thesis
    by (rule reachable.step)
qed

text \<open>
  C4. \<^verbatim>\<open>deregisterLinkMatcher\<close> starts its search at index 1, taking the built-in matcher to
  be at index 0. Once a matcher of priority above 0 is registered the built-in matcher is
  at index 1: \<^verbatim>\<open>deregisterLinkMatcher(0)\<close> returns true and removes it.
\<close>

theorem deregister_removes_builtin:
  "map matcherId (linkMatchers with_priority_matcher) = [1, 0]
   \<and> fst (deregisterLinkMatcher 0 with_priority_matcher) = True
   \<and> map matcherId (linkMatchers (snd (deregisterLinkMatcher 0 with_priority_matcher))) = [1]"
  by code_simp

text \<open>
  C5. In the same state the matcher with id 1 is at index 0, which the search skips:
  \<^verbatim>\<open>deregisterLinkMatcher(1)\<close> returns false and the matcher stays registered.
\<close>

theorem deregister_misses_first_entry:
  "map matcherId (linkMatchers with_priority_matcher) = [1, 0]
   \<and> fst (deregisterLinkMatcher 1 with_priority_matcher) = False
   \<and> map matcherId (linkMatchers (snd (deregisterLinkMatcher 1 with_priority_matcher))) = [1, 0]"
  by code_simp

text \<open>
  C6. \<^verbatim>\<open>setHypertextLinkHandler\<close> and \<^verbatim>\<open>setHypertextValidationCallback\<close> write to the entry
  at index 0. In the same state that is the matcher with id 1: its handler and validation
  callback are replaced, those of the built-in matcher (id 0) stay as they were.
\<close>

theorem hypertext_setters_hit_first_entry:
  "map (\<lambda>m. (matcherId m, handler m)) (linkMatchers with_priority_matcher)
     = [(1, Some 5), (0, None)]
   \<and> map (\<lambda>m. (matcherId m, handler m))
        (linkMatchers (state_of (setHypertextLinkHandler (Some 9) with_priority_matcher)))
     = [(1, Some 9), (0, None)]
   \<and> map (\<lambda>m. (matcherId m, map_option (\<lambda>cb. cb ''t'') (validationCallback m)))
        (linkMatchers (state_of (setHypertextValidationCallback (Some (\<lambda>t. Now False))
           with_priority_matcher)))
     = [(1, Some (Now False)), (0, None)]"
  by code_simp

section \<open>Validation that completes after a new scan\<close>

text \<open>
  While a requested scan is pending, a completion function registers nothing, whatever it
  is called with.
\<close>

lemma validated_while_pending:
  assumes "reachable st" "mouseZoneManager st \<noteq> None"
  shows "validated n isValid (linkifyRows start end st) = linkifyRows start end st"
proof -
  from assms(1) have "timer_inv st"
    using reachable_inv by auto
  then have "rowsTimeoutId (linkifyRows start end st) = Some (nextTimeout st)" "0 < nextTimeout st"
    using assms(2) by (simp_all add: linkifyRows_attached timer_inv_def)
  then show ?thesis
    by (simp add: validated_def complete_def Let_def)
qed

text \<open>
  C1. The completion function discards its result while \<^verbatim>\<open>_rowsTimeoutId\<close> is set, that is
  while a requested scan is pending. Once the timer of the new scan has fired the field is
  null again, and a completion function of the earlier scan called with true registers its
  zone: here the zone of \<^verbatim>\<open>ab\<close> on a row that now reads \<^verbatim>\<open>xy\<close>. Called while the new scan
  is pending, it registers nothing.
\<close>

theorem stale_validation_registers_zone:
  "map_option mouseZoneManager (run answer_after_rescan (new_Linkifier \<lparr>ydisp = 0, lines = [''ab'']\<rparr>))
     = Some (Some [\<lparr>x1 = 1, x2 = 3, y = 1, zoneUri = ''ab'', zoneMatcher = 1\<rparr>])
   \<and> map_option mouseZoneManager (run answer_while_pending (new_Linkifier \<lparr>ydisp = 0, lines = [''ab'']\<rparr>))
     = Some (Some [])"
  by code_simp

section \<open>The built-in matcher on a row with one link\<close>

lemma match_example:
  "str_match ''visit http://example.com now'' strictUrlRegex =
     Some [Some '' http://example.com '', Some ''http://example.com'', Some ''http://'',
           Some ''example.com'', Some ''example.com'', Some ''example'', Some ''com'',
           None, None, None, None, None, None, None, Some '' '']"
  by code_simp

lemma match_rest: "str_match '' now'' strictUrlRegex = None"
  by code_simp

lemma index_example: "indexOf ''visit http://example.com now'' ''http://example.com'' = 6"
  by code_simp

lemma substr_example: "substr ''visit http://example.com now'' 24 = '' now''"
  by code_simp

text \<open>
  C9. When the built-in matcher (as the constructor registers it, with no validation
  callback) is the only one and the scanned row reads \<^verbatim>\<open>visit http://example.com now\<close>, the
  scan of the row finds the one occurrence \<^verbatim>\<open>http://example.com\<close> at column 6 and registers
  exactly one zone: columns 7 to 25 (exclusive) of row \<open>rowIndex + 1\<close>.
\<close>

theorem builtin_matcher_example:
  assumes "linkMatchers st = [m]" "matcherId m = HYPERTEXT_LINK_MATCHER_ID"
    "regex m = strictUrlRegex" "matchIndex m = Some 1" "validationCallback m = None"
    "mouseZoneManager st = Some zones"
    "ydisp (terminal st) + rowIndex < length (lines (terminal st))"
    "lines (terminal st) ! (ydisp (terminal st) + rowIndex) = ''visit http://example.com now''"
  shows "private_linkifyRow rowIndex st =
     Some (Returned () (st\<lparr>mouseZoneManager := Some (zones @
       [\<lparr>x1 = 7, x2 = 25, y = rowIndex + 1, zoneUri = ''http://example.com'', zoneMatcher = 0\<rparr>])\<rparr>))"
proof -
  let ?text = "''visit http://example.com now''"
  let ?st' = "st\<lparr>mouseZoneManager := Some (zones @
       [\<lparr>x1 = 7, x2 = 25, y = Suc rowIndex, zoneUri = ''http://example.com'', zoneMatcher = 0\<rparr>])\<rparr>"
  have rest: "doLinkifyRow rowIndex '' now'' m 24 ?st' = Some (Returned () ?st')"
    by (subst doLinkifyRow.simps) (simp add: assms(3) match_rest)
  have v: "validate 6 rowIndex ?text (Some ''http://example.com'') m st = Returned () ?st'"
    using assms(2,5,6) by (simp add: validate_def addLink_def HYPERTEXT_LINK_MATCHER_ID_def)
  have first: "doLinkifyRow rowIndex ?text m 0 st = Some (Returned () ?st')"
    by (subst doLinkifyRow.simps)
       (simp add: assms(3,4) match_example element_def toString_def index_example v
          substr_example rest Let_def)
  have loop: "private_linkifyRow_loop rowIndex ?text 0 st = Some (Returned () ?st')"
    apply (subst private_linkifyRow_loop.simps)
    apply (simp add: assms(1) first)
    apply (subst private_linkifyRow_loop.simps)
    apply (simp add: assms(1))
    done
  show ?thesis
    using assms(7,8) by (simp add: private_linkifyRow_def Let_def loop)
qed

theorem builtin_matcher_example_witness:
  "private_linkifyRow 0
     (attachToDom [] (new_Linkifier \<lparr>ydisp = 1, lines = [''$ ls'', ''visit http://example.com now'']\<rparr>))
   = Some (Returned ()
       ((attachToDom [] (new_Linkifier \<lparr>ydisp = 1, lines = [''$ ls'', ''visit http://example.com now'']\<rparr>))
          \<lparr>mouseZoneManager := Some
             [\<lparr>x1 = 7, x2 = 25, y = 1, zoneUri = ''http://example.com'', zoneMatcher = 0\<rparr>]\<rparr>))"
proof -
  let ?st = "attachToDom [] (new_Linkifier \<lparr>ydisp = 1, lines = [''$ ls'', ''visit http://example.com now'']\<rparr>)"
  let ?m = "\<lparr>matcherId = 0, regex = strictUrlRegex, handler = None, matchIndex = Some 1,
             validationCallback = None, hoverStartCallback = None, hoverEndCallback = None,
             priority = 0\<rparr>"
  have "linkMatchers ?st = [?m]" "matcherId ?m = HYPERTEXT_LINK_MATCHER_ID"
    "regex ?m = strictUrlRegex" "matchIndex ?m = Some 1" "validationCallback ?m = None"
    "mouseZoneManager ?st = Some []"
    "ydisp (terminal ?st) + 0 < length (lines (terminal ?st))"
    "lines (terminal ?st) ! (ydisp (terminal ?st) + 0) = ''visit http://example.com now''"
    by (simp_all add: new_Linkifier_def registerLinkMatcher_def addLinkMatcherToList_def
        attachToDom_def HYPERTEXT_LINK_MATCHER_ID_def)
  from builtin_matcher_example [OF this] show ?thesis
    by simp
qed

section \<open>What a match is made of\<close>

lemma captures_from_refl: "captures_from k t k"
  by (simp add: captures_from_def)

lemma captures_from_trans:
  "captures_from k t k1 \<Longrightarrow> captures_from k1 t1 k2 \<Longrightarrow> suffix t1 t \<Longrightarrow> captures_from k t k2"
  unfolding captures_from_def
  by (meson sublist_order.order_trans suffix_imp_sublist)

lemma captures_from_clear: "captures_from (clear ns k) t k' \<Longrightarrow> captures_from k t k'"
  unfolding captures_from_def clear_def by (metis option.distinct(1))

lemma rmatch_sound:
  "x \<in> set (rmatch r inp t k) \<Longrightarrow> suffix (fst x) t \<and> captures_from k t (snd x)"
proof (induction r inp t k arbitrary: x rule: rmatch.induct)
  case (1 c inp t k)
  then show ?case
    by (auto simp: rmatch.simps captures_from_refl suffix_Cons split: list.splits if_splits)
next
  case (2 neg items inp t k)
  then show ?case
    by (auto simp: rmatch.simps captures_from_refl suffix_Cons split: list.splits if_splits)
next
  case (3 inp t k)
  then show ?case by (simp add: rmatch.simps captures_from_refl)
next
  case (4 inp t k)
  then show ?case by (simp add: rmatch.simps captures_from_refl split: if_splits)
next
  case (5 inp t k)
  then show ?case by (simp add: rmatch.simps captures_from_refl split: if_splits)
next
  case (6 a b inp t k)
  from 6(3) obtain x1 where x1: "x1 \<in> set (rmatch a inp t k)"
      and x: "x \<in> set (rmatch b inp (fst x1) (snd x1))"
    by (auto simp: rmatch.simps(6))
  from 6(1)[OF x1] 6(2)[OF x1 x] show ?case
    by (auto intro: suffix_order.trans captures_from_trans)
next
  case (7 a b inp t k)
  from 7(3) have "x \<in> set (rmatch a inp t k) \<or> x \<in> set (rmatch b inp t k)"
    by (simp add: rmatch.simps(7))
  with 7(1,2) show ?case by blast
next
  case (8 n r inp t k)
  from 8(2) obtain x1 where x1: "x1 \<in> set (rmatch r inp t k)"
      and x: "x = (fst x1, (snd x1)(n := Some (take (length t - length (fst x1)) t)))"
    by (auto simp: rmatch.simps(8))
  from 8(1)[OF x1] have s: "suffix (fst x1) t" and c: "captures_from k t (snd x1)"
    by simp_all
  have "sublist (take (length t - length (fst x1)) t) t"
    by (metis append_take_drop_id prefix_imp_sublist prefixI)
  with c have "captures_from k t ((snd x1)(n := Some (take (length t - length (fst x1)) t)))"
    unfolding captures_from_def by auto
  with s x show ?case by (simp add: fun_upd_def)
next
  case (9 mn mx r inp t k)
  show ?case
  proof (cases "mx = Some 0")
    case True
    with 9(3) show ?thesis
      by (simp add: rmatch.simps(9)[of mn "Some 0" r inp t k] captures_from_refl)
  next
    case False
    let ?again = "concat (map (\<lambda>x.
                 if mn = 0 \<and> length (fst x) = length t then []
                 else if length (fst x) \<le> length t
                      then rmatch (Rep (mn - 1) (map_option (\<lambda>j. j - 1) mx) r) inp (fst x) (snd x)
                      else [])
               (rmatch r inp t (clear (groups r) k)))"
    from 9(3) False have "x \<in> set ?again \<or> x = (t, k)"
      by (auto simp: rmatch.simps(9)[of mn mx r inp t k] Let_def split: if_splits)
    then show ?thesis
    proof
      assume "x = (t, k)"
      then show ?thesis by (simp add: captures_from_refl)
    next
      assume "x \<in> set ?again"
      then obtain x1 where x1: "x1 \<in> set (rmatch r inp t (clear (groups r) k))"
        and g: "\<not> (mn = 0 \<and> length (fst x1) = length t)" "length (fst x1) \<le> length t"
        and x: "x \<in> set (rmatch (Rep (mn - 1) (map_option (\<lambda>j. j - 1) mx) r) inp (fst x1) (snd x1))"
        by (auto split: if_splits)
      from 9(1)[OF False x1] have s1: "suffix (fst x1) t"
        and c1: "captures_from (clear (groups r) k) t (snd x1)"
        by simp_all
      from 9(2)[OF False x1 g x] have s2: "suffix (fst x) (fst x1)"
        and c2: "captures_from (snd x1) (fst x1) (snd x)"
        by simp_all
      from s1 s2 have "suffix (fst x) t"
        by (rule suffix_order.trans[rotated])
      moreover from captures_from_clear [OF c1] c2 s1 have "captures_from k t (snd x)"
        by (rule captures_from_trans)
      ultimately show ?thesis ..
    qed
  qed
qed

lemma search_sound:
  "search r inp t = Some (t0, t', k) \<Longrightarrow>
     suffix t0 t \<and> suffix t' t0 \<and> (\<forall>i u. k i = Some u \<longrightarrow> sublist u t0)"
proof (induction t)
  case Nil
  then obtain x where x: "x \<in> set (rmatch r inp [] (\<lambda>_. None))" "t0 = []" "t' = fst x" "k = snd x"
    by (auto split: list.splits)
  from rmatch_sound [OF x(1)] x show ?case
    by (auto simp: captures_from_def)
next
  case (Cons c t)
  show ?case
  proof (cases "rmatch r inp (c # t) (\<lambda>_. None)")
    case Nil
    with Cons show ?thesis by (auto simp: suffix_Cons)
  next
    case (Cons x xs)
    then have x: "x \<in> set (rmatch r inp (c # t) (\<lambda>_. None))" by simp
    from Cons Cons.prems have "t0 = c # t" "t' = fst x" "k = snd x" by simp_all
    with rmatch_sound [OF x] show ?thesis
      by (auto simp: captures_from_def)
  qed
qed

lemma str_match_sublist:
  assumes "str_match t r = Some match" "element match i = Some u"
  shows "sublist u t"
proof -
  from assms(1) obtain t0 t' k where s: "search r t t = Some (t0, t', k)"
    and m: "match = Some (take (length t0 - length t') t0) # map k [1..<Suc (ngroups r)]"
    by (auto simp: str_match_def split: option.splits)
  from search_sound [OF s] have t0: "suffix t0 t" and k: "\<forall>i u. k i = Some u \<longrightarrow> sublist u t0"
    by simp_all
  have whole: "sublist (take (length t0 - length t') t0) t0"
    by (metis append_take_drop_id prefix_imp_sublist prefixI)
  from assms(2) have i: "i < length match" "match ! i = Some u"
    by (auto simp: element_def split: if_splits)
  have "sublist u t0"
  proof (cases i)
    case 0
    with i m whole show ?thesis by simp
  next
    case (Suc j)
    with i m have "j < ngroups r" "k (Suc j) = Some u"
      by (simp_all add: nth_Cons' nth_append del: upt_Suc split: if_splits)
    with k show ?thesis by blast
  qed
  with t0 show ?thesis
    by (meson sublist_order.order_trans suffix_imp_sublist)
qed

lemma indexOf_sublist: "sublist u t \<Longrightarrow> 0 \<le> indexOf t u"
proof (induction t)
  case Nil
  then show ?case by simp
next
  case (Cons c t)
  from Cons.prems have "prefix u (c # t) \<or> sublist u t"
    by (simp add: sublist_Cons_right)
  then show ?case
  proof
    assume "prefix u (c # t)"
    then have "take (length u) (c # t) = u"
      by (metis append_eq_conv_conj prefixE)
    then show ?thesis by simp
  next
    assume "sublist u t"
    with Cons.IH show ?thesis by (simp add: Let_def)
  qed
qed

section \<open>Termination of the matching of a row\<close>

lemma tails_drop: "set (tails (drop n t)) \<subseteq> set (tails t)"
proof (induction t arbitrary: n)
  case Nil
  then show ?case by simp
next
  case (Cons c t)
  show ?case
  proof (cases n)
    case 0
    then show ?thesis by simp
  next
    case (Suc j)
    with Cons [of j] show ?thesis by auto
  qed
qed

lemma self_in_tails: "t \<in> set (tails t)"
  by (cases t) simp_all

lemma doLinkifyRow_returns:
  assumes "list_all (nonempty_selection matcher) (tails t)"
  shows "doLinkifyRow rowIndex t matcher offset st \<noteq> None"
  using assms
proof (induction "length t" arbitrary: t offset st rule: less_induct)
  case less
  note unfold = doLinkifyRow.simps [of rowIndex t matcher offset st]
  show ?case
  proof (cases "str_match t (regex matcher)")
    case None
    then show ?thesis by (simp add: unfold)
  next
    case (Some match)
    show ?thesis
    proof (cases "length match = 0")
      case True
      with Some show ?thesis by (simp add: unfold)
    next
      case False
      let ?uri = "element match (case matchIndex matcher of None \<Rightarrow> 0 | Some i \<Rightarrow> i)"
      let ?index = "indexOf t (toString ?uri)"
      let ?v = "validate (offset + ?index) rowIndex t ?uri matcher st"
      show ?thesis
      proof (cases ?v)
        case (Thrown e st')
        with Some False show ?thesis by (simp add: unfold Let_def)
      next
        case (Returned u st')
        show ?thesis
        proof (cases ?uri)
          case None
          with Some False Returned show ?thesis by (simp add: unfold Let_def)
        next
          case uri: (Some link)
          let ?start = "?index + int (length link)"
          let ?rest = "substr t ?start"
          show ?thesis
          proof (cases "length ?rest > 0")
            case F: False
            with Some False Returned uri show ?thesis by (simp add: unfold Let_def)
          next
            case True
            then have t: "t \<noteq> []"
              by (auto simp: substr_def)
            have "nonempty_selection matcher t"
              using less.prems self_in_tails by (auto simp: list_all_iff)
            with Some uri t have link: "link \<noteq> []"
              by (auto simp: nonempty_selection_def)
            from str_match_sublist [OF Some uri] have "0 \<le> indexOf t link"
              by (rule indexOf_sublist)
            with uri link have start: "1 \<le> ?start"
              by (cases link) (simp_all add: toString_def)
            then have rest: "?rest = drop (nat ?start) t"
              by (simp add: substr_def)
            from start t have shorter: "length ?rest < length t"
              unfolding rest by (cases t) auto
            have "set (tails ?rest) \<subseteq> set (tails t)"
              unfolding rest by (rule tails_drop)
            with less.prems have "list_all (nonempty_selection matcher) (tails ?rest)"
              by (auto simp: list_all_iff)
            from less.hyps [OF shorter this]
            have "doLinkifyRow rowIndex ?rest matcher (offset + ?start) st' \<noteq> None" .
            with Some False Returned uri True show ?thesis
              by (simp add: unfold Let_def)
          qed
        qed
      qed
    qed
  qed
qed

text \<open>
  C2, as the code has it. \<^verbatim>\<open>_doLinkifyRow\<close> returns or throws, after finitely many
  occurrences, for every matcher and row text on whose non-empty suffixes the matcher never
  selects an empty link text: each step then removes at least one character from the
  remaining text.
\<close>

theorem doLinkifyRow_terminates:
  assumes "list_all (nonempty_selection matcher) (tails t)"
  shows "\<exists>out. doLinkifyRow rowIndex t matcher offset st = Some out"
  using doLinkifyRow_returns [OF assms] by auto

theorem doLinkifyRow_terminates_witness:
  "list_all (nonempty_selection empty_matcher) (tails ''aaa'')
   \<and> doLinkifyRow 0 ''aaa'' empty_matcher 0
         (attachToDom [] (new_Linkifier \<lparr>ydisp = 0, lines = [''aaa'']\<rparr>)) \<noteq> None"
proof -
  have h: "list_all (nonempty_selection empty_matcher) (tails ''aaa'')"
    by code_simp
  from doLinkifyRow_terminates [OF h] h show ?thesis
    by auto
qed

lemma empty_match_no_result:
  assumes "doLinkifyRow row t' m' off st = Some out"
    and m: "str_match t (regex m) = Some match" "match \<noteq> []"
      "element match (case matchIndex m of None \<Rightarrow> 0 | Some i \<Rightarrow> i) = Some []"
    and t: "t \<noteq> []" and v: "validationCallback m = None"
  shows "t' = t \<longrightarrow> m' = m \<longrightarrow> mouseZoneManager st = None"
  using assms(1)
proof (induction row t' m' off st out rule: doLinkifyRow.raw_induct[rotated 1, consumes 1])
  case (1 f row t' m' off st out)
  show ?case
  proof (intro impI)
    assume eq: "t' = t" "m' = m"
    show "mouseZoneManager st = None"
    proof (rule ccontr)
      assume "mouseZoneManager st \<noteq> None"
      then obtain zs where zs: "mouseZoneManager st = Some zs"
        by auto
      let ?st' = "st\<lparr>mouseZoneManager := Some (zs @
         [\<lparr>x1 = off + 1, x2 = off + 1, y = row + 1, zoneUri = [], zoneMatcher = matcherId m\<rparr>])\<rparr>"
      have idx: "indexOf t [] = 0"
        using t by (cases t) simp_all
      have sub: "substr t 0 = t"
        by (simp add: substr_def)
      have val: "validate off row t (Some []) m st = Returned () ?st'"
        by (simp add: validate_def addLink_def v zs)
      from 1(2) have "f row t m off ?st' = Some out"
        using m t by (simp add: eq Let_def toString_def idx sub val)
      from 1(1) [OF this] show False
        by simp
    qed
  qed
qed

lemma empty_match_diverges:
  assumes "str_match t (regex m) = Some match" "match \<noteq> []"
      "element match (case matchIndex m of None \<Rightarrow> 0 | Some i \<Rightarrow> i) = Some []"
    and "t \<noteq> []" and "validationCallback m = None" and "mouseZoneManager st \<noteq> None"
  shows "doLinkifyRow row t m off st = None"
proof (cases "doLinkifyRow row t m off st")
  case None
  then show ?thesis .
next
  case (Some out)
  from empty_match_no_result [OF Some assms(1-5)] assms(6) show ?thesis
    by simp
qed

lemma empty_match_example: "str_match ''b'' (star (Chr CHR ''a'')) = Some [Some []]"
  by code_simp

text \<open>
  C2, as stated, fails: with the pattern \<^verbatim>\<open>/a*/\<close> and the row text \<^verbatim>\<open>b\<close> the match is the
  empty string at column 0, the remaining text is the whole text again, and the recursion
  never ends.
\<close>

theorem empty_match_never_returns:
  "doLinkifyRow 0 ''b'' empty_matcher 0
     (attachToDom [] (new_Linkifier \<lparr>ydisp = 0, lines = [''b'']\<rparr>)) = None"
  by (rule empty_match_diverges [where match = "[Some []]"])
     (simp_all add: empty_matcher_def empty_match_example element_def attachToDom_def)

end
